theory Spec2Isabelle
  imports Main "HOL-Library.Word" "HOL-Library.Signed_Division"
begin

section \<open>TPCircularBuffer.h: a shallow embedding\<close>

text \<open>
  The header declares one struct and seven inline functions. The struct becomes a record,
  each function a HOL function over that record with the source's name and the source's
  order of statements.

  \<^item> \<open>int32_t\<close> and \<open>atomic_int\<close> are 32-bit words read in two's complement (\<open>sint\<close>).
    Addition, subtraction and negation wrap around: that is what C11 prescribes for the
    atomic read-modify-write operations on \<open>fillCount\<close>, and what the plain \<open>int32_t\<close>
    additions compile to. Theorems that speak about mathematical integers say in their
    hypotheses which additions must stay in range.
  \<^item> \<open>%\<close> is C's remainder: it truncates towards zero and has the sign of the dividend.
    A zero divisor is a fault, and so is \<open>INT32_MIN % -1\<close>, whose quotient does not fit:
    the division instruction traps on both.
  \<^item> \<open>size_t\<close> has 64 bits; converting a negative \<open>int32_t\<close> to it adds \<open>2 ^ 64\<close>.
  \<^item> \<open>assert\<close> is a fault when its condition is false.
  \<^item> The field \<open>buffer\<close> is a pointer to the mapped region. The record holds the bytes of
    the region in its place, and a pointer into the region is its offset from
    \<open>buffer->buffer\<close>.
  \<^item> The atomic operations are given their sequential meaning: the header is embedded for
    one thread of control.
\<close>

type_synonym int32_t = "32 word"
type_synonym byte = "8 word"

datatype fault = AssertionFailed | DivisionByZero | DivisionOverflow | InvalidAccess

datatype pointer = NULL | Ptr int

record TPCircularBuffer =
  buffer :: "byte list"
  length' :: int32_t
  tail :: int32_t
  head :: int32_t
  fillCount :: int32_t
  atomic :: bool

subsection \<open>C arithmetic\<close>

text \<open>The value of \<open>a % b\<close> where it has one.\<close>

definition c_rem :: "int32_t \<Rightarrow> int32_t \<Rightarrow> int32_t" where
  "c_rem a b = word_of_int (sint a smod sint b)"

text \<open>The quotient of \<open>a / b\<close> is \<open>2 ^ 31\<close>, which no \<open>int32_t\<close> holds.\<close>

definition rem_overflows :: "int32_t \<Rightarrow> int32_t \<Rightarrow> bool" where
  "rem_overflows a b = (sint a = - (2 ^ 31) \<and> sint b = - 1)"

definition size_t_of :: "int32_t \<Rightarrow> nat" where
  "size_t_of x = nat (sint x mod 2 ^ 64)"

text \<open>Arithmetic on \<open>void *\<close> counts in bytes; no offset makes \<open>NULL\<close> a valid address.\<close>

definition ptr_add :: "pointer \<Rightarrow> int \<Rightarrow> pointer" where
  "ptr_add p k = (case p of NULL \<Rightarrow> NULL | Ptr v \<Rightarrow> Ptr (v + k))"

subsection \<open>stdatomic.h, one thread\<close>

definition atomic_load_explicit :: "int32_t \<Rightarrow> int32_t" where
  "atomic_load_explicit obj = obj"

text \<open>Both return the value held before the operation, paired with the value stored.\<close>

definition atomic_fetch_add_explicit :: "int32_t \<Rightarrow> int32_t \<Rightarrow> int32_t \<times> int32_t" where
  "atomic_fetch_add_explicit obj arg = (obj, obj + arg)"

definition atomic_fetch_sub_explicit :: "int32_t \<Rightarrow> int32_t \<Rightarrow> int32_t \<times> int32_t" where
  "atomic_fetch_sub_explicit obj arg = (obj, obj - arg)"

subsection \<open>The mirrored region\<close>

text \<open>
  Modelled from the spec: the mapping that \<open>_TPCircularBufferInit\<close> (declared in the header,
  defined outside it) sets up. The region has as many bytes of storage as the list is
  long; it is mapped twice in a row, so the offsets from 0 up to twice that many are
  addressable and offset \<open>capacity + k\<close> is the same byte as offset \<open>k\<close>. Any other
  offset, and \<open>NULL\<close>, is an invalid access.
\<close>

definition addressable :: "byte list \<Rightarrow> int \<Rightarrow> nat \<Rightarrow> bool" where
  "addressable mem v n = (0 \<le> v \<and> v + int n \<le> 2 * int (length mem))"

text \<open>
  \<open>memcpy(dst, src + off, n)\<close> with the destination in the region and the source an array
  of the caller's. Copying nothing touches no memory.
\<close>

definition memcpy :: "byte list \<Rightarrow> pointer \<Rightarrow> byte list \<Rightarrow> int \<Rightarrow> nat \<Rightarrow> fault + byte list" where
  "memcpy mem dst src off n =
     (if n = 0 then Inr mem
      else case dst of
        NULL \<Rightarrow> Inl InvalidAccess
      | Ptr v \<Rightarrow>
          if 0 \<le> off \<and> off + int n \<le> int (length src) \<and> addressable mem v n
          then Inr (fold (\<lambda>i m. m[(nat v + i) mod length mem := src ! (nat off + i)]) [0..<n] mem)
          else Inl InvalidAccess)"

text \<open>
  The caller reading \<open>n\<close> bytes through a pointer that an access function returned.
  Reading nothing touches no memory.
\<close>

definition load_bytes :: "byte list \<Rightarrow> pointer \<Rightarrow> nat \<Rightarrow> fault + byte list" where
  "load_bytes mem p n =
     (if n = 0 then Inr []
      else case p of
        NULL \<Rightarrow> Inl InvalidAccess
      | Ptr v \<Rightarrow>
          if addressable mem v n
          then Inr (map (\<lambda>i. mem ! ((nat v + i) mod length mem)) [0..<n])
          else Inl InvalidAccess)"

text \<open>
  What a region \<open>m\<close> holds once \<open>n\<close> bytes \<open>g 0\<close>, \<open>g 1\<close>, ... were stored into \<open>mem\<close> from
  offset \<open>v\<close> on: a byte at most \<open>n\<close> places after \<open>v\<close>, going round, is the byte stored
  there, and every other byte is that of \<open>mem\<close>.
\<close>

definition holds_copy :: "byte list \<Rightarrow> nat \<Rightarrow> (nat \<Rightarrow> byte) \<Rightarrow> nat \<Rightarrow> byte list \<Rightarrow> bool" where
  "holds_copy mem v g n m =
     (length m = length mem \<and>
      (\<forall>p<length mem. m ! p =
         (if (p + length mem - v mod length mem) mod length mem < n
          then g ((p + length mem - v mod length mem) mod length mem) else mem ! p)))"

subsection \<open>Reading (consuming)\<close>

text \<open>The result is the returned pointer and the value stored in \<open>*availableBytes\<close>.\<close>

definition TPCircularBufferTail :: "TPCircularBuffer \<Rightarrow> pointer \<times> int32_t" where
  "TPCircularBufferTail b =
     (let fc = (if atomic b then atomic_load_explicit (fillCount b) else fillCount b);
          availableBytes = (if sint fc \<le> 0 then 0 else fc)
      in if availableBytes = 0 then (NULL, availableBytes)
         else (Ptr (sint (tail b)), availableBytes))"

definition TPCircularBufferConsume :: "TPCircularBuffer \<Rightarrow> int32_t \<Rightarrow> fault + TPCircularBuffer" where
  "TPCircularBufferConsume b amount =
     (if length' b = 0 then Inl DivisionByZero
      else if rem_overflows (tail b + amount) (length' b) then Inl DivisionOverflow
      else
        let b1 = b\<lparr>tail := c_rem (tail b + amount) (length' b)\<rparr>
        in if atomic b1
           then Inr (b1\<lparr>fillCount := snd (atomic_fetch_sub_explicit (fillCount b1) amount)\<rparr>)
           else Inr (b1\<lparr>fillCount := fillCount b1 - amount\<rparr>))"

subsection \<open>Writing (producing)\<close>

text \<open>
  The result is the returned pointer and the values stored in \<open>*availableBytes\<close> and
  \<open>*discardBytes\<close>.
\<close>

definition TPCircularBufferHead :: "TPCircularBuffer \<Rightarrow> pointer \<times> int32_t \<times> int32_t" where
  "TPCircularBufferHead b =
     (let fc = (if atomic b then atomic_load_explicit (fillCount b) else fillCount b);
          (availableBytes, discardBytes) =
            (if sint fc \<le> 0 then (length' b, - fc) else (length' b - fc, 0))
      in if availableBytes = 0 then (NULL, availableBytes, discardBytes)
         else (Ptr (sint (head b)), availableBytes, discardBytes))"

text \<open>The result is the returned \<open>previousFillCount\<close> and the buffer.\<close>

definition TPCircularBufferProduce ::
    "TPCircularBuffer \<Rightarrow> int32_t \<Rightarrow> fault + (int32_t \<times> TPCircularBuffer)" where
  "TPCircularBufferProduce b amount =
     (if length' b = 0 then Inl DivisionByZero
      else if rem_overflows (head b + amount) (length' b) then Inl DivisionOverflow
      else
        let b1 = b\<lparr>head := c_rem (head b + amount) (length' b)\<rparr>;
            (previousFillCount, b2) =
              (if atomic b1
               then (let (old, new) = atomic_fetch_add_explicit (fillCount b1) amount
                     in (old, b1\<lparr>fillCount := new\<rparr>))
               else (fillCount b1, b1\<lparr>fillCount := fillCount b1 + amount\<rparr>))
        in if sint (previousFillCount + amount) \<le> sint (length' b2)
           then Inr (previousFillCount, b2)
           else Inl AssertionFailed)"

text \<open>The source array is \<open>src\<close>; the result is the returned flag and the buffer.\<close>

definition TPCircularBufferProduceBytes ::
    "TPCircularBuffer \<Rightarrow> byte list \<Rightarrow> int32_t \<Rightarrow> fault + (bool \<times> TPCircularBuffer)" where
  "TPCircularBufferProduceBytes b src len =
     (let (ptr, space, discard) = TPCircularBufferHead b
      in if sint space < sint (len - discard) then Inr (False, b)
         else
           case memcpy (buffer b) (ptr_add ptr (sint discard)) src (sint discard)
                  (size_t_of (len - discard)) of
             Inl e \<Rightarrow> Inl e
           | Inr m \<Rightarrow>
               (case TPCircularBufferProduce (b\<lparr>buffer := m\<rparr>) len of
                  Inl e \<Rightarrow> Inl e
                | Inr (previousFillCount, b') \<Rightarrow> Inr (True, b')))"

subsection \<open>Deprecated\<close>

definition TPCircularBufferConsumeNoBarrier ::
    "TPCircularBuffer \<Rightarrow> int32_t \<Rightarrow> fault + TPCircularBuffer" where
  "TPCircularBufferConsumeNoBarrier b amount =
     (if length' b = 0 then Inl DivisionByZero
      else if rem_overflows (tail b + amount) (length' b) then Inl DivisionOverflow
      else
        let b1 = b\<lparr>tail := c_rem (tail b + amount) (length' b)\<rparr>
        in Inr (b1\<lparr>fillCount := fillCount b1 - amount\<rparr>))"

definition TPCircularBufferProduceNoBarrier ::
    "TPCircularBuffer \<Rightarrow> int32_t \<Rightarrow> fault + TPCircularBuffer" where
  "TPCircularBufferProduceNoBarrier b amount =
     (if length' b = 0 then Inl DivisionByZero
      else if rem_overflows (head b + amount) (length' b) then Inl DivisionOverflow
      else
        let b1 = b\<lparr>head := c_rem (head b + amount) (length' b)\<rparr>;
            b2 = b1\<lparr>fillCount := fillCount b1 + amount\<rparr>
        in if sint (fillCount b2) \<le> sint (length' b2) then Inr b2 else Inl AssertionFailed)"

subsection \<open>Clearing\<close>

text \<open>
  Modelled from the spec: \<open>TPCircularBufferClear\<close> is declared in the header and defined
  outside it. The spec has it reset the read cursor, the write cursor and the fill count
  to zero and keep the region; a freshly initialised buffer is in the same state.
\<close>

definition TPCircularBufferClear :: "TPCircularBuffer \<Rightarrow> TPCircularBuffer" where
  "TPCircularBufferClear b = b\<lparr>tail := 0, head := 0, fillCount := 0\<rparr>"

subsection \<open>Sequences of calls\<close>

datatype call =
    Tail
  | Consume int32_t
  | Head
  | Produce int32_t
  | ProduceBytes "byte list" int32_t
  | ConsumeNoBarrier int32_t
  | ProduceNoBarrier int32_t

datatype reply =
    TailResult pointer int32_t
  | HeadResult pointer int32_t int32_t
  | ProduceResult int32_t
  | ProduceBytesResult bool
  | Void

text \<open>
  One call on a buffer: what the caller gets back and the buffer afterwards. The access
  functions take a pointer to a constant buffer and store only into their output
  parameters, so their embeddings have no buffer to hand back and the caller keeps its own.
\<close>

fun perform :: "TPCircularBuffer \<Rightarrow> call \<Rightarrow> fault + (reply \<times> TPCircularBuffer)" where
  "perform b Tail = (case TPCircularBufferTail b of (p, n) \<Rightarrow> Inr (TailResult p n, b))"
| "perform b (Consume amount) =
     (case TPCircularBufferConsume b amount of Inl e \<Rightarrow> Inl e | Inr b' \<Rightarrow> Inr (Void, b'))"
| "perform b Head = (case TPCircularBufferHead b of (p, n, d) \<Rightarrow> Inr (HeadResult p n d, b))"
| "perform b (Produce amount) =
     (case TPCircularBufferProduce b amount of
        Inl e \<Rightarrow> Inl e | Inr (prev, b') \<Rightarrow> Inr (ProduceResult prev, b'))"
| "perform b (ProduceBytes src len) =
     (case TPCircularBufferProduceBytes b src len of
        Inl e \<Rightarrow> Inl e | Inr (ok, b') \<Rightarrow> Inr (ProduceBytesResult ok, b'))"
| "perform b (ConsumeNoBarrier amount) =
     (case TPCircularBufferConsumeNoBarrier b amount of
        Inl e \<Rightarrow> Inl e | Inr b' \<Rightarrow> Inr (Void, b'))"
| "perform b (ProduceNoBarrier amount) =
     (case TPCircularBufferProduceNoBarrier b amount of
        Inl e \<Rightarrow> Inl e | Inr b' \<Rightarrow> Inr (Void, b'))"

text \<open>A sequence of calls stops at the first fault, as the process does.\<close>

fun run :: "TPCircularBuffer \<Rightarrow> call list \<Rightarrow> fault + (reply list \<times> TPCircularBuffer)" where
  "run b [] = Inr ([], b)"
| "run b (c # cs) =
     (case perform b c of
        Inl e \<Rightarrow> Inl e
      | Inr (r, b') \<Rightarrow>
          (case run b' cs of Inl e \<Rightarrow> Inl e | Inr (rs, b'') \<Rightarrow> Inr (r # rs, b'')))"

subsection \<open>The quiescent invariant and the callers' contract\<close>

definition quiescent :: "TPCircularBuffer \<Rightarrow> bool" where
  "quiescent b =
     (0 \<le> sint (fillCount b) \<and> sint (fillCount b) \<le> sint (length' b) \<and>
      sint (head b) = (sint (tail b) + sint (fillCount b)) mod sint (length' b))"

text \<open>Both cursors are offsets into the region, as the data model of the spec has them.\<close>

definition cursors_in_region :: "TPCircularBuffer \<Rightarrow> bool" where
  "cursors_in_region b =
     (0 \<le> sint (tail b) \<and> sint (tail b) < sint (length' b) \<and>
      0 \<le> sint (head b) \<and> sint (head b) < sint (length' b))"

text \<open>
  What a sequence of calls keeps: a positive length, the quiescent invariant and both
  cursors in the region.
\<close>

definition sound :: "TPCircularBuffer \<Rightarrow> bool" where
  "sound b = (0 < sint (length' b) \<and> quiescent b \<and> cursors_in_region b)"

text \<open>
  The amount of a call is at most what the matching access function reports on the
  buffer the call is made on.
\<close>

fun within_reported :: "TPCircularBuffer \<Rightarrow> call \<Rightarrow> bool" where
  "within_reported b (Consume amount) = (sint amount \<le> sint (snd (TPCircularBufferTail b)))"
| "within_reported b (Produce amount) =
     (sint amount \<le> sint (fst (snd (TPCircularBufferHead b))))"
| "within_reported b c = False"

fun all_within_reported :: "TPCircularBuffer \<Rightarrow> call list \<Rightarrow> bool" where
  "all_within_reported b [] = True"
| "all_within_reported b (c # cs) =
     (within_reported b c \<and>
      (case perform b c of Inl e \<Rightarrow> True | Inr (r, b') \<Rightarrow> all_within_reported b' cs))"

text \<open>
  The amount is a byte count, and adding it to the cursor it advances stays within
  \<open>int32_t\<close>.
\<close>

fun byte_count :: "TPCircularBuffer \<Rightarrow> call \<Rightarrow> bool" where
  "byte_count b (Consume amount) =
     (0 \<le> sint amount \<and> sint (tail b) + sint amount < 2 ^ 31)"
| "byte_count b (Produce amount) =
     (0 \<le> sint amount \<and> sint (head b) + sint amount < 2 ^ 31)"
| "byte_count b c = False"

fun byte_counts :: "TPCircularBuffer \<Rightarrow> call list \<Rightarrow> bool" where
  "byte_counts b [] = True"
| "byte_counts b (c # cs) =
     (byte_count b c \<and>
      (case perform b c of Inl e \<Rightarrow> True | Inr (r, b') \<Rightarrow> byte_counts b' cs))"

subsection \<open>Comparing the ways to produce and consume\<close>

text \<open>The deprecated function that stands for a call of the current one.\<close>

fun deprecated :: "call \<Rightarrow> call" where
  "deprecated (Consume amount) = ConsumeNoBarrier amount"
| "deprecated (Produce amount) = ProduceNoBarrier amount"
| "deprecated c = c"

fun produce_or_consume :: "call \<Rightarrow> bool" where
  "produce_or_consume (Consume amount) = True"
| "produce_or_consume (Produce amount) = True"
| "produce_or_consume c = False"

fun is_access :: "call \<Rightarrow> bool" where
  "is_access Tail = True"
| "is_access Head = True"
| "is_access c = False"

text \<open>What a sequence of calls leaves in \<open>fillCount\<close>, \<open>tail\<close> and \<open>head\<close>, or its fault.\<close>

definition cursors ::
    "fault + (reply list \<times> TPCircularBuffer) \<Rightarrow> fault + (int32_t \<times> int32_t \<times> int32_t)" where
  "cursors r = (case r of Inl e \<Rightarrow> Inl e | Inr (rs, b) \<Rightarrow> Inr (fillCount b, tail b, head b))"

subsection \<open>Concrete buffers\<close>

text \<open>A four-byte buffer holding three unread bytes that wrap around the end.\<close>

definition example_buffer :: TPCircularBuffer where
  "example_buffer =
     \<lparr>buffer = [12, 13, 10, 11], length' = 4, tail = 3, head = 2, fillCount = 3,
      atomic = True\<rparr>"

text \<open>An empty four-byte buffer, both cursors at the start of the region.\<close>

definition empty_buffer :: TPCircularBuffer where
  "empty_buffer =
     \<lparr>buffer = [0, 0, 0, 0], length' = 4, tail = 0, head = 0, fillCount = 0,
      atomic = True\<rparr>"

text \<open>
  An empty four-byte buffer whose fill count is one below zero: the transient state for
  which \<open>TPCircularBufferHead\<close> reports a byte to discard.
\<close>

definition raced_buffer :: TPCircularBuffer where
  "raced_buffer =
     \<lparr>buffer = [0, 0, 0, 0], length' = 4, tail = 0, head = 0, fillCount = - 1,
      atomic = True\<rparr>"

section \<open>Properties\<close>

subsection \<open>Reading \<open>int32_t\<close> results as integers\<close>

lemma abs_smod_le: "\<bar>(k :: int) smod l\<bar> \<le> \<bar>k\<bar>"
proof -
  have "0 \<le> \<bar>k\<bar> mod \<bar>l\<bar>"
    by (cases "l = 0") simp_all
  moreover have "\<bar>k\<bar> mod \<bar>l\<bar> \<le> \<bar>k\<bar>"
    by (rule zmod_le_nonneg_dividend) simp
  ultimately show ?thesis
    by (simp add: smod_int_alt_def abs_mult)
qed

lemma smod_nonpos: "(k :: int) \<le> 0 \<Longrightarrow> k smod l \<le> 0"
proof -
  assume "k \<le> 0"
  moreover have "0 \<le> \<bar>k\<bar> mod \<bar>l\<bar>"
    by (cases "l = 0") simp_all
  ultimately show ?thesis
    by (simp add: smod_int_alt_def sgn_if mult_le_0_iff)
qed

lemma sint_c_rem: "sint (c_rem a b) = sint a smod sint b"
proof -
  have a: "- (2 ^ 31) \<le> sint a" "sint a < 2 ^ 31"
    using sint_ge [of a] sint_lt [of a] by simp_all
  have "\<bar>sint a smod sint b\<bar> \<le> \<bar>sint a\<bar>"
    by (rule abs_smod_le)
  moreover have "sint a \<le> 0 \<Longrightarrow> sint a smod sint b \<le> 0"
    by (rule smod_nonpos)
  ultimately have "- (2 ^ 31) \<le> sint a smod sint b \<and> sint a smod sint b < 2 ^ 31"
    using a by linarith
  then show ?thesis
    by (simp add: c_rem_def sint_sbintrunc' signed_take_bit_int_eq_self)
qed

lemma sint_c_rem_mod:
  "0 \<le> sint a \<Longrightarrow> 0 < sint b \<Longrightarrow> sint (c_rem a b) = sint a mod sint b"
  by (simp add: sint_c_rem smod_int_alt_def sgn_if)

lemma sint_add_in_range:
  "- (2 ^ 31) \<le> sint (a :: int32_t) + sint (b :: int32_t) \<Longrightarrow> sint a + sint b < 2 ^ 31 \<Longrightarrow> sint (a + b) = sint a + sint b"
  by (simp add: sint_word_add signed_take_bit_int_eq_self)

lemma sint_sub_in_range:
  "- (2 ^ 31) \<le> sint (a :: int32_t) - sint (b :: int32_t) \<Longrightarrow> sint a - sint b < 2 ^ 31 \<Longrightarrow> sint (a - b) = sint a - sint b"
  by (simp add: sint_word_diff signed_take_bit_int_eq_self)

lemma sint_bounds: "- (2 ^ 31) \<le> sint (a :: int32_t)" "sint (a :: int32_t) < 2 ^ 31"
  using sint_ge [of a] sint_lt [of a] by simp_all

lemma size_t_of_nonneg: "0 \<le> sint x \<Longrightarrow> size_t_of x = nat (sint x)"
proof -
  assume "0 \<le> sint x"
  moreover have "sint x < 2 ^ 64"
    using sint_bounds(2) [of x] by simp
  ultimately show ?thesis
    by (simp add: size_t_of_def)
qed

lemma c_rem_examples:
  "c_rem 4 4 = 0" "c_rem (- 1) 4 = - 1" "c_rem 3 4 = 3" "c_rem 2 4 = 2" "c_rem 6 4 = 2"
  by (simp_all add: c_rem_def smod_int_alt_def)

subsection \<open>The functions, branch by branch\<close>

lemma Tail_cases:
  "TPCircularBufferTail b =
     (if sint (fillCount b) \<le> 0 then (NULL, 0) else (Ptr (sint (tail b)), fillCount b))"
  by (auto simp: TPCircularBufferTail_def atomic_load_explicit_def Let_def)

lemma Head_cases:
  "TPCircularBufferHead b =
     (if sint (fillCount b) \<le> 0
      then (if length' b = 0 then NULL else Ptr (sint (head b)), length' b, - fillCount b)
      else (if length' b - fillCount b = 0 then NULL else Ptr (sint (head b)),
            length' b - fillCount b, 0))"
  by (simp add: TPCircularBufferHead_def atomic_load_explicit_def Let_def)

lemma rem_overflows_positive [simp]: "0 < sint b \<Longrightarrow> \<not> rem_overflows a b"
  by (simp add: rem_overflows_def)

lemma positive_nonzero: "0 < sint (w :: int32_t) \<Longrightarrow> w \<noteq> 0"
  by auto

lemma Produce_cases:
  "0 < sint (length' b) \<Longrightarrow>
   TPCircularBufferProduce b amount =
     (if sint (fillCount b + amount) \<le> sint (length' b)
      then Inr (fillCount b,
                b\<lparr>head := c_rem (head b + amount) (length' b), fillCount := fillCount b + amount\<rparr>)
      else Inl AssertionFailed)"
  by (simp add: TPCircularBufferProduce_def atomic_fetch_add_explicit_def Let_def positive_nonzero)

subsection \<open>The access functions\<close>

text \<open>
  C6. \<open>TPCircularBufferTail\<close> reports zero available bytes and \<open>NULL\<close> when the fill count
  it loads is at most zero; otherwise it reports the fill count as the available bytes,
  with the pointer \<open>buffer + tail\<close>.
\<close>

theorem TPCircularBufferTail_reports:
  "TPCircularBufferTail b =
     (if sint (fillCount b) \<le> 0 then (NULL, 0) else (Ptr (sint (tail b)), fillCount b))"
  by (auto simp: TPCircularBufferTail_def atomic_load_explicit_def Let_def)

text \<open>
  C5. \<open>TPCircularBufferHead\<close> reports, for a fill count of at most zero, the length of the
  buffer as the available bytes and the negated fill count as the bytes to discard; for
  a positive fill count, the length less the fill count, and nothing to discard. The
  pointer is \<open>NULL\<close> exactly when the available bytes are zero, and \<open>buffer + head\<close>
  otherwise. The values are the \<open>int32_t\<close> values the function stores.
\<close>

theorem TPCircularBufferHead_reports:
  "case TPCircularBufferHead b of (p, availableBytes, discardBytes) \<Rightarrow>
     availableBytes = (if sint (fillCount b) \<le> 0 then length' b else length' b - fillCount b) \<and>
     discardBytes = (if sint (fillCount b) \<le> 0 then - fillCount b else 0) \<and>
     (p = NULL) = (availableBytes = 0) \<and>
     p = (if availableBytes = 0 then NULL else Ptr (sint (head b)))"
  by (simp add: TPCircularBufferHead_def atomic_load_explicit_def Let_def)

subsection \<open>Producing\<close>

lemma c_rem_truncates:
  "c_rem a b =
     word_of_int (if 0 \<le> sint a then sint a mod \<bar>sint b\<bar> else - (- sint a mod \<bar>sint b\<bar>))"
  by (simp add: c_rem_def smod_int_alt_def sgn_if)

text \<open>
  C7, as stated, fails for two kinds of amount. An amount that takes the fill count past
  the length makes \<open>TPCircularBufferProduce\<close> abort on its assertion, so it returns
  nothing: the example buffer holds three of its four bytes, and the amount 2 aborts.
  An amount that makes \<open>head + amount\<close> negative leaves a negative \<open>head\<close>, since \<open>%\<close>
  takes the sign of its dividend: on the empty buffer the amount \<open>-1\<close> leaves
  \<open>head = -1\<close>, where \<open>(0 + -1) mod 4\<close> is 3.
\<close>

theorem TPCircularBufferProduce_effect_counterexample:
  "TPCircularBufferProduce example_buffer 2 = Inl AssertionFailed \<and>
   TPCircularBufferProduce empty_buffer (- 1) =
     Inr (0, empty_buffer\<lparr>head := - 1, fillCount := - 1\<rparr>) \<and>
   sint (- 1 :: int32_t) \<noteq>
     (sint (head empty_buffer) + sint (- 1 :: int32_t)) mod sint (length' empty_buffer)"
proof -
  have r: "c_rem 4 4 = 0" "c_rem (- 1) 4 = - 1"
    by (simp_all add: c_rem_def smod_int_alt_def)
  show ?thesis
    by (simp add: example_buffer_def empty_buffer_def Produce_cases r)
qed

text \<open>
  C7, amended. On a buffer of positive length, \<open>TPCircularBufferProduce\<close> aborts on its
  assertion when the fill count it stores, \<open>fillCount + amount\<close>, exceeds the length.
  Otherwise it returns the fill count it found, adds \<open>amount\<close> to \<open>fillCount\<close>, leaves
  \<open>tail\<close> and every other field as they were, and sets \<open>head\<close> to the remainder of the
  \<open>int32_t\<close> sum \<open>head + amount\<close> by the length, truncated towards zero: for a
  non-negative sum \<open>s\<close> that is \<open>s mod length\<close>, for a negative one \<open>- (- s mod length)\<close>.
  When \<open>head + amount\<close> is non-negative and within \<open>int32_t\<close>, \<open>head\<close> becomes
  \<open>(head + amount) mod length\<close>.
\<close>

theorem TPCircularBufferProduce_effect:
  assumes "0 < sint (length' b)"
  shows "TPCircularBufferProduce b amount =
           (if sint (fillCount b + amount) \<le> sint (length' b)
            then Inr (fillCount b,
                      b\<lparr>head := word_of_int
                          (if 0 \<le> sint (head b + amount)
                           then sint (head b + amount) mod sint (length' b)
                           else - (- sint (head b + amount) mod sint (length' b))),
                        fillCount := fillCount b + amount\<rparr>)
            else Inl AssertionFailed) \<and>
         (0 \<le> sint (head b) + sint amount \<and> sint (head b) + sint amount < 2 ^ 31 \<and>
          sint (fillCount b + amount) \<le> sint (length' b) \<longrightarrow>
          TPCircularBufferProduce b amount =
            Inr (fillCount b,
                 b\<lparr>head := word_of_int ((sint (head b) + sint amount) mod sint (length' b)),
                   fillCount := fillCount b + amount\<rparr>))"
proof -
  from assms have abs: "\<bar>sint (length' b)\<bar> = sint (length' b)"
    by simp
  have general: "TPCircularBufferProduce b amount =
      (if sint (fillCount b + amount) \<le> sint (length' b)
       then Inr (fillCount b,
                 b\<lparr>head := word_of_int
                     (if 0 \<le> sint (head b + amount)
                      then sint (head b + amount) mod sint (length' b)
                      else - (- sint (head b + amount) mod sint (length' b))),
                   fillCount := fillCount b + amount\<rparr>)
       else Inl AssertionFailed)"
    unfolding Produce_cases [OF assms] c_rem_truncates abs ..
  have "sint (head b + amount) = sint (head b) + sint amount"
    if "0 \<le> sint (head b) + sint amount" and "sint (head b) + sint amount < 2 ^ 31"
    using that by (intro sint_add_in_range) simp_all
  with general show ?thesis
    by simp
qed

theorem TPCircularBufferProduce_effect_witness:
  "0 < sint (length' example_buffer) \<and>
   0 \<le> sint (head example_buffer) + sint (1 :: int32_t) \<and>
   sint (head example_buffer) + sint (1 :: int32_t) < 2 ^ 31 \<and>
   sint (fillCount example_buffer + 1) \<le> sint (length' example_buffer) \<and>
   TPCircularBufferProduce example_buffer 1 =
     Inr (3, example_buffer\<lparr>head := 3, fillCount := 4\<rparr>)"
proof -
  have h: "0 < sint (length' example_buffer)"
    by (simp add: example_buffer_def)
  have p: "0 \<le> sint (head example_buffer) + sint (1 :: int32_t) \<and>
      sint (head example_buffer) + sint (1 :: int32_t) < 2 ^ 31 \<and>
      sint (fillCount example_buffer + 1) \<le> sint (length' example_buffer)"
    by (simp add: example_buffer_def)
  from TPCircularBufferProduce_effect [OF h, of 1] h p show ?thesis
    by (simp add: example_buffer_def)
qed

lemma fires_iff:
  "0 < sint (length' b) \<Longrightarrow>
   (TPCircularBufferProduce b amount = Inl AssertionFailed) =
   (sint (length' b) < sint (fillCount b + amount))"
  by (auto simp: Produce_cases)

lemma within_space_sum:
  assumes len: "0 < sint (length' b)"
      and low: "- (2 ^ 31) \<le> sint (fillCount b) + sint amount"
      and le: "sint amount \<le> sint (fst (snd (TPCircularBufferHead b)))"
  shows "sint (fillCount b + amount) = sint (fillCount b) + sint amount \<and>
         sint (fillCount b) + sint amount \<le> sint (length' b)"
proof -
  have b: "sint (length' b) < 2 ^ 31" "- (2 ^ 31) \<le> sint (fillCount b)" "sint (fillCount b) < 2 ^ 31"
    by (rule sint_bounds)+
  have sum: "sint (fillCount b) + sint amount \<le> sint (length' b)"
  proof (cases "sint (fillCount b) \<le> 0")
    case True
    with le have "sint amount \<le> sint (length' b)"
      by (simp add: TPCircularBufferHead_def atomic_load_explicit_def Let_def split: if_splits)
    with True show ?thesis by linarith
  next
    case False
    then have "sint (length' b - fillCount b) = sint (length' b) - sint (fillCount b)"
      using len b by (intro sint_sub_in_range) linarith+
    moreover from False le have "sint amount \<le> sint (length' b - fillCount b)"
      by (simp add: TPCircularBufferHead_def atomic_load_explicit_def Let_def split: if_splits)
    ultimately show ?thesis by linarith
  qed
  with low b have "sint (fillCount b + amount) = sint (fillCount b) + sint amount"
    by (intro sint_add_in_range) linarith+
  with sum show ?thesis by simp
qed

text \<open>
  C8. On a buffer of positive length, the assertion of \<open>TPCircularBufferProduce\<close> fails
  exactly when the fill count after the update exceeds the length: as the \<open>int32_t\<close>
  value stored, and as the integer sum of the previous fill count and the amount
  whenever that sum is within \<open>int32_t\<close>. When the amount is at most the available bytes
  that \<open>TPCircularBufferHead\<close> reports on the same buffer (and the sum does not fall
  below \<open>int32_t\<close>), the assertion holds.
\<close>

theorem TPCircularBufferProduce_assertion:
  assumes "0 < sint (length' b)"
  shows "((TPCircularBufferProduce b amount = Inl AssertionFailed) =
          (sint (length' b) < sint (fillCount b + amount))) \<and>
         (- (2 ^ 31) \<le> sint (fillCount b) + sint amount \<and>
          sint (fillCount b) + sint amount < 2 ^ 31 \<longrightarrow>
          (TPCircularBufferProduce b amount = Inl AssertionFailed) =
          (sint (length' b) < sint (fillCount b) + sint amount)) \<and>
         (- (2 ^ 31) \<le> sint (fillCount b) + sint amount \<and>
          sint amount \<le> sint (fst (snd (TPCircularBufferHead b))) \<longrightarrow>
          TPCircularBufferProduce b amount \<noteq> Inl AssertionFailed)"
  using assms fires_iff [of b amount] within_space_sum [of b amount]
  by (auto simp: sint_add_in_range)

theorem TPCircularBufferProduce_assertion_witness:
  "0 < sint (length' example_buffer) \<and>
   - (2 ^ 31) \<le> sint (fillCount example_buffer) + sint (1 :: int32_t) \<and>
   sint (fillCount example_buffer) + sint (1 :: int32_t) < 2 ^ 31 \<and>
   sint (1 :: int32_t) \<le> sint (fst (snd (TPCircularBufferHead example_buffer))) \<and>
   TPCircularBufferProduce example_buffer 1 \<noteq> Inl AssertionFailed \<and>
   \<not> sint (length' example_buffer) < sint (fillCount example_buffer) + sint (1 :: int32_t)"
proof -
  have h: "0 < sint (length' example_buffer)"
    by (simp add: example_buffer_def)
  have p: "- (2 ^ 31) \<le> sint (fillCount example_buffer) + sint (1 :: int32_t) \<and>
      sint (fillCount example_buffer) + sint (1 :: int32_t) < 2 ^ 31 \<and>
      sint (1 :: int32_t) \<le> sint (fst (snd (TPCircularBufferHead example_buffer)))"
    by (simp add: example_buffer_def TPCircularBufferHead_def atomic_load_explicit_def)
  from TPCircularBufferProduce_assertion [OF h, of 1] h p show ?thesis
    by (simp add: example_buffer_def)
qed

subsection \<open>Copying into the mirrored region\<close>

lemma mod_below_twice: "(x :: nat) < 2 * c \<Longrightarrow> x mod c = (if x < c then x else x - c)"
  by (auto simp: le_mod_geq)

lemma offset_unique:
  assumes "p < c" and "i < c"
  shows "((v + i) mod c = p) = ((p + c - v mod c) mod c = (i :: nat))"
proof -
  define r where "r = v mod c"
  from assms have r: "r < c" by (simp add: r_def)
  have "(v + i) mod c = (r + i) mod c"
    by (simp add: r_def mod_add_left_eq)
  also have "\<dots> = (if r + i < c then r + i else r + i - c)"
    using r assms by (intro mod_below_twice) linarith
  finally have a: "(v + i) mod c = (if r + i < c then r + i else r + i - c)" .
  have b: "(p + c - r) mod c = (if p + c - r < c then p + c - r else p + c - r - c)"
    using r assms by (intro mod_below_twice) linarith
  have "((if r + i < c then r + i else r + i - c) = p) =
        ((if p + c - r < c then p + c - r else p + c - r - c) = i)"
    using r assms by (auto split: if_splits)
  then show ?thesis
    unfolding a b r_def [symmetric] .
qed

lemma fold_store_length:
  "length (fold (\<lambda>i m. m[f i := g i]) is mem) = length mem"
  by (induction "is" arbitrary: mem) simp_all

lemma fold_store_nth:
  assumes "n \<le> c" and "p < c" and "length mem = c"
  shows "fold (\<lambda>i m. m[(v + i) mod c := g i]) [0..<n] mem ! p =
           (if (p + c - v mod c) mod c < n then g ((p + c - v mod c) mod c) else mem ! p)"
  using assms(1)
proof (induction n)
  case 0
  show ?case by simp
next
  case (Suc n)
  let ?d = "(p + c - v mod c) mod c"
  let ?m = "fold (\<lambda>i m. m[(v + i) mod c := g i]) [0..<n] mem"
  from Suc.prems have n: "n < c" by simp
  have ih: "?m ! p = (if ?d < n then g ?d else mem ! p)"
    using Suc by simp
  have len: "length ?m = c"
    using assms(3) by (simp add: fold_store_length)
  have u: "((v + n) mod c = p) = (?d = n)"
    by (rule offset_unique [OF assms(2) n])
  have "fold (\<lambda>i m. m[(v + i) mod c := g i]) [0..<Suc n] mem ! p = (?m[(v + n) mod c := g n]) ! p"
    by simp
  also have "\<dots> = (if (v + n) mod c = p then g n else ?m ! p)"
    using len assms(2) by (simp add: nth_list_update)
  also have "\<dots> = (if ?d < Suc n then g ?d else mem ! p)"
    using u ih by (auto simp: less_Suc_eq)
  finally show ?case .
qed

lemma take_drop_nth: "k + n \<le> length xs \<Longrightarrow> map (\<lambda>i. xs ! (k + i)) [0..<n] = take n (drop k xs)"
  by (rule nth_equalityI) simp_all

lemma holds_copy_nothing: "holds_copy mem v g 0 mem"
  by (simp add: holds_copy_def)

lemma memcpy_Ptr:
  assumes "n \<le> length mem" and "0 \<le> off" and "off + int n \<le> int (length src)"
      and "addressable mem v n"
  shows "\<exists>m. memcpy mem (Ptr v) src off n = Inr m \<and>
             holds_copy mem (nat v) (\<lambda>i. src ! (nat off + i)) n m"
proof (cases "n = 0")
  case True
  then show ?thesis by (simp add: memcpy_def holds_copy_nothing)
next
  case False
  let ?m = "fold (\<lambda>i m. m[(nat v + i) mod length mem := src ! (nat off + i)]) [0..<n] mem"
  from False assms have "memcpy mem (Ptr v) src off n = Inr ?m"
    by (simp add: memcpy_def)
  moreover have "holds_copy mem (nat v) (\<lambda>i. src ! (nat off + i)) n ?m"
    unfolding holds_copy_def
    using fold_store_nth [OF assms(1) _ refl, of _ "nat v" "\<lambda>i. src ! (nat off + i)"]
    by (simp add: fold_store_length)
  ultimately show ?thesis by blast
qed

lemma holds_copy_load:
  assumes m: "holds_copy mem v g n m" and n: "n \<le> length mem"
      and a: "addressable mem u n" and same: "nat u mod length mem = v mod length mem"
  shows "load_bytes m (Ptr u) n = Inr (map g [0..<n])"
proof (cases "n = 0")
  case True
  then show ?thesis by (simp add: load_bytes_def)
next
  case False
  let ?c = "length mem"
  from m have len: "length m = ?c"
    by (simp add: holds_copy_def)
  have "m ! ((nat u + i) mod ?c) = g i" if i: "i < n" for i
  proof -
    from i n have ic: "i < ?c" by simp
    then have "0 < ?c" by linarith
    then have pc: "(nat u + i) mod ?c < ?c" by (rule mod_less_divisor)
    have "(v + i) mod ?c = (nat u + i) mod ?c"
      using same by (metis mod_add_left_eq)
    then have "((nat u + i) mod ?c + ?c - v mod ?c) mod ?c = i"
      using offset_unique [OF pc ic, of v] by simp
    with m pc i show ?thesis
      by (simp add: holds_copy_def)
  qed
  then have "map (\<lambda>i. m ! ((nat u + i) mod ?c)) [0..<n] = map g [0..<n]"
    by simp
  with False a len show ?thesis
    by (simp add: load_bytes_def addressable_def)
qed

lemma holds_copy_frame:
  assumes m: "holds_copy mem v g n m" and n: "n \<le> length mem" and p: "p < length mem"
      and out: "\<forall>i<n. (v + i) mod length mem \<noteq> p"
  shows "m ! p = mem ! p"
proof -
  let ?c = "length mem" and ?d = "(p + length mem - v mod length mem) mod length mem"
  have "\<not> ?d < n"
  proof
    assume d: "?d < n"
    with n have "?d < ?c" by simp
    from offset_unique [OF p this, of v] have "(v + ?d) mod ?c = p" by simp
    with out d show False by blast
  qed
  with m p show ?thesis
    by (simp add: holds_copy_def)
qed

lemma upt_1: "[0..<1] = [0]"
  by (simp add: upt_rec)

lemma upt_2: "[0..<2] = [0, Suc 0]"
  by (simp add: upt_rec)

subsection \<open>Writing bytes\<close>

text \<open>
  C3. When the available bytes that \<open>TPCircularBufferHead\<close> reports are fewer than
  \<open>len - discard\<close>, \<open>TPCircularBufferProduceBytes\<close> returns false and the buffer, its
  region included, is as it was. The comparison is the one the function makes, on
  \<open>int32_t\<close> values.
\<close>

theorem ProduceBytes_insufficient_space:
  assumes "TPCircularBufferHead b = (p, availableBytes, discardBytes)"
      and "sint availableBytes < sint (len - discardBytes)"
  shows "TPCircularBufferProduceBytes b src len = Inr (False, b)"
  using assms by (simp add: TPCircularBufferProduceBytes_def)

theorem ProduceBytes_insufficient_space_witness:
  "TPCircularBufferHead example_buffer = (Ptr 2, 1, 0) \<and>
   sint (1 :: int32_t) < sint (2 - 0 :: int32_t) \<and>
   TPCircularBufferProduceBytes example_buffer [7, 8] 2 = Inr (False, example_buffer)"
proof -
  have h: "TPCircularBufferHead example_buffer = (Ptr 2, 1, 0)"
    by (simp add: example_buffer_def TPCircularBufferHead_def atomic_load_explicit_def)
  have c: "sint (1 :: int32_t) < sint (2 - 0 :: int32_t)"
    by simp
  from ProduceBytes_insufficient_space [OF h c] h c show ?thesis
    by simp
qed

lemma ProduceBytes_copy:
  assumes hd: "TPCircularBufferHead b = (ptr, space, discard)"
      and enough: "\<not> sint space < sint (len - discard)"
      and L: "0 < sint (length' b)"
      and reg: "int (length (buffer b)) = sint (length' b)"
      and h0: "0 \<le> sint (head b)"
      and fits: "sint (head b) + sint len \<le> 2 * sint (length' b)"
      and d0: "0 \<le> sint discard" and dl: "sint discard \<le> sint len"
      and src: "sint len \<le> int (length src)"
  shows "\<exists>m. TPCircularBufferProduceBytes b src len =
               Inr (True, b\<lparr>buffer := m, head := c_rem (head b + len) (length' b),
                            fillCount := fillCount b + len\<rparr>) \<and>
             holds_copy (buffer b) (nat (sint (head b) + sint discard))
               (\<lambda>i. src ! (nat (sint discard) + i)) (nat (sint len - sint discard)) m \<and>
             nat (sint len - sint discard) \<le> length (buffer b)"
proof -
  let ?L = "sint (length' b)" and ?f = "sint (fillCount b)"
  let ?l = "sint len" and ?d = "sint discard"
  let ?n = "nat (?l - ?d)"
  note bnd = sint_bounds [of len] sint_bounds [of "length' b"] sint_bounds [of "fillCount b"]
  have sub: "sint (len - discard) = ?l - ?d"
    using d0 dl bnd by (intro sint_sub_in_range) linarith+
  have n: "size_t_of (len - discard) = ?n"
    using sub dl by (simp add: size_t_of_nonneg)
  have facts: "sint space \<le> ?L \<and> sint (fillCount b + len) \<le> ?L \<and>
               (sint space \<noteq> 0 \<longrightarrow> ptr = Ptr (sint (head b)))"
  proof (cases "?f \<le> 0")
    case True
    with hd have sp: "space = length' b" and di: "discard = - fillCount b"
      and pt: "ptr = (if length' b = 0 then NULL else Ptr (sint (head b)))"
      by (auto simp: Head_cases)
    from di have "fillCount b = 0 - discard" by simp
    then have "?f = sint (0 - discard)" by simp
    also have "\<dots> = sint (0 :: int32_t) - ?d"
      using d0 sint_bounds [of discard] by (intro sint_sub_in_range) simp_all
    finally have f: "?f = - ?d" by simp
    have "sint (fillCount b + len) = ?f + ?l"
      using f dl d0 bnd by (intro sint_add_in_range) linarith+
    moreover have "?f + ?l \<le> ?L"
      using enough sub sp f by simp
    ultimately show ?thesis
      using sp pt L by auto
  next
    case False
    with hd have sp: "space = length' b - fillCount b" and di: "discard = 0"
      and pt: "ptr = (if space = 0 then NULL else Ptr (sint (head b)))"
      by (auto simp: Head_cases)
    have s: "sint space = ?L - ?f"
      unfolding sp using False L bnd by (intro sint_sub_in_range) linarith+
    have le: "?f + ?l \<le> ?L"
      using enough sub s di by simp
    have "sint (fillCount b + len) = ?f + ?l"
      using False dl di le bnd by (intro sint_add_in_range) simp_all
    with le s False pt show ?thesis
      by auto
  qed
  have nc: "?n \<le> length (buffer b)"
    using enough sub facts reg by linarith
  have nz: "length' b \<noteq> 0"
    using L by auto
  have "\<exists>m. memcpy (buffer b) (ptr_add ptr ?d) src ?d ?n = Inr m \<and>
            holds_copy (buffer b) (nat (sint (head b) + ?d)) (\<lambda>i. src ! (nat ?d + i)) ?n m"
  proof (cases "?n = 0")
    case True
    then show ?thesis
      by (simp add: memcpy_def holds_copy_nothing)
  next
    case False
    with enough sub have "sint space \<noteq> 0" by auto
    with facts have "ptr_add ptr ?d = Ptr (sint (head b) + ?d)"
      by (simp add: ptr_add_def)
    moreover have "addressable (buffer b) (sint (head b) + ?d) ?n"
      using h0 d0 dl fits reg by (simp add: addressable_def)
    moreover have "?d + int ?n \<le> int (length src)"
      using dl src by simp
    ultimately show ?thesis
      using memcpy_Ptr [OF nc d0, of src "sint (head b) + ?d"] by simp
  qed
  then obtain m where m: "memcpy (buffer b) (ptr_add ptr ?d) src ?d ?n = Inr m"
    and hc: "holds_copy (buffer b) (nat (sint (head b) + ?d)) (\<lambda>i. src ! (nat ?d + i)) ?n m"
    by blast
  have "TPCircularBufferProduce (b\<lparr>buffer := m\<rparr>) len =
        Inr (fillCount b, b\<lparr>buffer := m, head := c_rem (head b + len) (length' b),
                            fillCount := fillCount b + len\<rparr>)"
    using facts L by (simp add: Produce_cases)
  with hd enough m n have "TPCircularBufferProduceBytes b src len =
      Inr (True, b\<lparr>buffer := m, head := c_rem (head b + len) (length' b),
                   fillCount := fillCount b + len\<rparr>)"
    by (simp add: TPCircularBufferProduceBytes_def)
  with hc nc show ?thesis by blast
qed

text \<open>
  C4, as stated, fails: with enough space reported, \<open>TPCircularBufferProduceBytes\<close> need not
  copy and return true. For \<open>len = -1\<close> on a buffer that reports one free byte and
  nothing to discard, the test \<open>space < len - discard\<close> is false, and \<open>memcpy\<close> is asked
  for \<open>(size_t) -1\<close> bytes: an invalid access.
\<close>

theorem ProduceBytes_copies_counterexample:
  "TPCircularBufferHead example_buffer = (Ptr 2, 1, 0) \<and>
   \<not> sint (1 :: int32_t) < sint (- 1 - 0 :: int32_t) \<and>
   TPCircularBufferProduceBytes example_buffer [7] (- 1) = Inl InvalidAccess"
  by (simp add: example_buffer_def TPCircularBufferProduceBytes_def Head_cases memcpy_def
        ptr_add_def size_t_of_def)

text \<open>
  C4, amended. Let \<open>TPCircularBufferHead\<close> report \<open>space\<close> and \<open>discard\<close> with
  \<open>space \<ge> len - discard\<close>, on a buffer of positive length whose region has that many
  bytes and whose \<open>head\<close> is not negative; let \<open>0 \<le> discard \<le> len\<close>, let the source hold
  \<open>len\<close> bytes, and let \<open>head + len\<close> stay within the twice-mapped region. Then
  \<open>TPCircularBufferProduceBytes\<close> returns true; the region holds the \<open>len - discard\<close> bytes
  of the source from offset \<open>discard\<close> on at offset \<open>discard\<close> past \<open>buffer + head\<close>, and
  every byte outside that span is as it was; and the buffer is the one that
  \<open>TPCircularBufferProduce\<close> with amount \<open>len\<close> leaves after the copy: \<open>head\<close> advanced by
  \<open>len\<close>, \<open>fillCount\<close> raised by the full \<open>len\<close>.
\<close>

theorem ProduceBytes_copies:
  assumes hd: "TPCircularBufferHead b = (ptr, space, discard)"
      and enough: "\<not> sint space < sint (len - discard)"
      and L: "0 < sint (length' b)"
      and reg: "int (length (buffer b)) = sint (length' b)"
      and h0: "0 \<le> sint (head b)"
      and fits: "sint (head b) + sint len \<le> 2 * sint (length' b)"
      and d0: "0 \<le> sint discard" and dl: "sint discard \<le> sint len"
      and src: "sint len \<le> int (length src)"
  shows "\<exists>m. TPCircularBufferProduceBytes b src len =
               Inr (True, b\<lparr>buffer := m, head := c_rem (head b + len) (length' b),
                            fillCount := fillCount b + len\<rparr>) \<and>
             TPCircularBufferProduce (b\<lparr>buffer := m\<rparr>) len =
               Inr (fillCount b, b\<lparr>buffer := m, head := c_rem (head b + len) (length' b),
                                   fillCount := fillCount b + len\<rparr>) \<and>
             length m = length (buffer b) \<and>
             load_bytes m (Ptr (sint (head b) + sint discard)) (nat (sint len - sint discard)) =
               Inr (take (nat (sint len - sint discard)) (drop (nat (sint discard)) src)) \<and>
             (\<forall>p<length m.
                (\<forall>i<nat (sint len - sint discard).
                   (nat (sint (head b) + sint discard) + i) mod length m \<noteq> p) \<longrightarrow>
                m ! p = buffer b ! p)"
proof -
  let ?n = "nat (sint len - sint discard)" and ?v = "sint (head b) + sint discard"
  let ?g = "\<lambda>i. src ! (nat (sint discard) + i)"
  let ?b' = "\<lambda>m. b\<lparr>buffer := m, head := c_rem (head b + len) (length' b),
                     fillCount := fillCount b + len\<rparr>"
  from ProduceBytes_copy [OF assms] obtain m
    where run: "TPCircularBufferProduceBytes b src len = Inr (True, ?b' m)"
      and hc: "holds_copy (buffer b) (nat ?v) ?g ?n m" and n: "?n \<le> length (buffer b)"
    by blast
  from hc have len: "length m = length (buffer b)"
    by (simp add: holds_copy_def)
  have a: "addressable (buffer b) ?v ?n"
    using h0 d0 dl fits reg by (simp add: addressable_def)
  have "load_bytes m (Ptr ?v) ?n = Inr (map ?g [0..<?n])"
    by (rule holds_copy_load [OF hc n a refl])
  moreover have "map ?g [0..<?n] = take ?n (drop (nat (sint discard)) src)"
    using d0 dl src by (intro take_drop_nth) linarith
  ultimately have ld: "load_bytes m (Ptr ?v) ?n = Inr (take ?n (drop (nat (sint discard)) src))"
    by simp
  have fr: "\<forall>p<length m. (\<forall>i<?n. (nat ?v + i) mod length m \<noteq> p) \<longrightarrow> m ! p = buffer b ! p"
    using holds_copy_frame [OF hc n] len by simp
  have nz: "length' b \<noteq> 0"
    using L by auto
  have "TPCircularBufferProduce (b\<lparr>buffer := m\<rparr>) len = Inr (fillCount b, ?b' m)"
    using run hd enough L
    by (auto simp: TPCircularBufferProduceBytes_def Produce_cases split: sum.splits if_splits)
  with run len ld fr show ?thesis by blast
qed

theorem ProduceBytes_copies_witness:
  "TPCircularBufferHead raced_buffer = (Ptr 0, 4, 1) \<and>
   \<not> sint (4 :: int32_t) < sint (3 - 1 :: int32_t) \<and>
   0 < sint (length' raced_buffer) \<and>
   int (length (buffer raced_buffer)) = sint (length' raced_buffer) \<and>
   0 \<le> sint (head raced_buffer) \<and>
   sint (head raced_buffer) + sint (3 :: int32_t) \<le> 2 * sint (length' raced_buffer) \<and>
   0 \<le> sint (1 :: int32_t) \<and> sint (1 :: int32_t) \<le> sint (3 :: int32_t) \<and>
   sint (3 :: int32_t) \<le> int (length [9, 7, 8 :: byte]) \<and>
   TPCircularBufferProduceBytes raced_buffer [9, 7, 8] 3 =
     Inr (True, raced_buffer\<lparr>buffer := [0, 7, 8, 0], head := 3, fillCount := 2\<rparr>) \<and>
   load_bytes [0, 7, 8, 0] (Ptr 1) 2 = Inr [7, 8]"
proof -
  have hd: "TPCircularBufferHead raced_buffer = (Ptr 0, 4, 1)"
    by (simp add: raced_buffer_def Head_cases)
  have enough: "\<not> sint (4 :: int32_t) < sint (3 - 1 :: int32_t)"
    by simp
  have L: "0 < sint (length' raced_buffer)"
    and reg: "int (length (buffer raced_buffer)) = sint (length' raced_buffer)"
    and h0: "0 \<le> sint (head raced_buffer)"
    and fits: "sint (head raced_buffer) + sint (3 :: int32_t) \<le> 2 * sint (length' raced_buffer)"
    by (simp_all add: raced_buffer_def)
  have d0: "0 \<le> sint (1 :: int32_t)" and dl: "sint (1 :: int32_t) \<le> sint (3 :: int32_t)"
    and src: "sint (3 :: int32_t) \<le> int (length [9, 7, 8 :: byte])"
    by simp_all
  have r: "c_rem 3 4 = 3"
    by (simp add: c_rem_def smod_int_alt_def)
  have run: "TPCircularBufferProduceBytes raced_buffer [9, 7, 8] 3 =
      Inr (True, raced_buffer\<lparr>buffer := [0, 7, 8, 0], head := 3, fillCount := 2\<rparr>)"
    by (simp add: raced_buffer_def TPCircularBufferProduceBytes_def Head_cases memcpy_def
          ptr_add_def size_t_of_def addressable_def Produce_cases r upt_2)
  from ProduceBytes_copies [OF hd enough L reg h0 fits d0 dl src] obtain m
    where "TPCircularBufferProduceBytes raced_buffer [9, 7, 8] 3 =
             Inr (True, raced_buffer\<lparr>buffer := m,
                    head := c_rem (head raced_buffer + 3) (length' raced_buffer),
                    fillCount := fillCount raced_buffer + 3\<rparr>)"
      and "load_bytes m (Ptr (sint (head raced_buffer) + sint (1 :: int32_t)))
             (nat (sint (3 :: int32_t) - sint (1 :: int32_t))) =
           Inr (take (nat (sint (3 :: int32_t) - sint (1 :: int32_t)))
                  (drop (nat (sint (1 :: int32_t))) [9, 7, 8]))"
    by blast
  with run have "load_bytes [0, 7, 8, 0] (Ptr 1) 2 = Inr [7, 8]"
    by (simp add: raced_buffer_def)
  with hd enough L reg h0 fits d0 dl src run show ?thesis
    by simp
qed

subsection \<open>Writing, then reading\<close>

text \<open>
  C2, as stated, fails on a buffer that already holds unread bytes: the bytes at the
  pointer that \<open>TPCircularBufferTail\<close> returns are the oldest unread ones. The example
  buffer holds three bytes, the oldest being 11; after writing the single byte 7,
  \<open>TPCircularBufferTail\<close> reports four bytes at \<open>buffer + 3\<close>, the first of them 11, and
  \<open>Consume 1\<close> releases that byte.
\<close>

theorem write_then_read_counterexample:
  "quiescent example_buffer \<and> cursors_in_region example_buffer \<and>
   TPCircularBufferHead example_buffer = (Ptr 2, 1, 0) \<and>
   int (length [7 :: byte]) \<le> sint (1 :: int32_t) \<and>
   TPCircularBufferProduceBytes example_buffer [7] 1 =
     Inr (True, example_buffer\<lparr>buffer := [12, 13, 7, 11], head := 3, fillCount := 4\<rparr>) \<and>
   TPCircularBufferTail (example_buffer\<lparr>buffer := [12, 13, 7, 11], head := 3, fillCount := 4\<rparr>) =
     (Ptr 3, 4) \<and>
   load_bytes [12, 13, 7, 11] (Ptr 3) 1 = Inr [11] \<and>
   TPCircularBufferConsume
     (example_buffer\<lparr>buffer := [12, 13, 7, 11], head := 3, fillCount := 4\<rparr>) 1 =
     Inr (example_buffer\<lparr>buffer := [12, 13, 7, 11], tail := 0, head := 3, fillCount := 3\<rparr>) \<and>
   [11 :: byte] \<noteq> [7]"
proof -
  have r: "c_rem 3 4 = 3" "c_rem 4 4 = 0"
    by (simp_all add: c_rem_def smod_int_alt_def)
  show ?thesis
    by (simp add: example_buffer_def quiescent_def cursors_in_region_def Head_cases Tail_cases
          TPCircularBufferProduceBytes_def memcpy_def ptr_add_def size_t_of_def
          addressable_def Produce_cases load_bytes_def TPCircularBufferConsume_def
          atomic_fetch_sub_explicit_def r upt_1)
qed

text \<open>
  C2, amended. On a buffer that satisfies the quiescent invariant, with both cursors in
  \<open>[0, length)\<close> and a region of \<open>length\<close> bytes, writing \<open>N\<close> bytes with
  \<open>TPCircularBufferProduceBytes\<close>, \<open>N\<close> at most the space that \<open>TPCircularBufferHead\<close>
  reports, returns true; \<open>TPCircularBufferTail\<close> then reports \<open>fillCount + N\<close> bytes, and
  the \<open>N\<close> bytes that follow the \<open>fillCount\<close> bytes already unread are the bytes written,
  in order: on an empty buffer they are the \<open>N\<close> bytes at the returned pointer.
  \<open>TPCircularBufferConsume\<close> of \<open>N\<close> then returns the fill count to what it was and leaves
  the region alone.
\<close>

theorem write_then_read:
  assumes inv: "quiescent b" "cursors_in_region b"
      and reg: "int (length (buffer b)) = sint (length' b)"
      and hd: "TPCircularBufferHead b = (ptr, space, discard)"
      and fit: "int (length src) \<le> sint space"
      and len: "sint len = int (length src)"
  shows "\<exists>b1 b2. TPCircularBufferProduceBytes b src len = Inr (True, b1) \<and>
           sint (snd (TPCircularBufferTail b1)) = sint (fillCount b) + int (length src) \<and>
           load_bytes (buffer b1)
             (ptr_add (fst (TPCircularBufferTail b1)) (sint (fillCount b))) (length src) =
             Inr src \<and>
           TPCircularBufferConsume b1 len = Inr b2 \<and> fillCount b2 = fillCount b \<and>
           buffer b2 = buffer b1"
proof -
  let ?L = "sint (length' b)" and ?f = "sint (fillCount b)" and ?t = "sint (tail b)"
  let ?N = "length src"
  note bnd = sint_bounds [of "length' b"]
  from inv have f: "0 \<le> ?f" "?f \<le> ?L" and h: "sint (head b) = (?t + ?f) mod ?L"
    and t: "0 \<le> ?t" "?t < ?L" and hr: "0 \<le> sint (head b)" "sint (head b) < ?L"
    by (simp_all add: quiescent_def cursors_in_region_def)
  from t have L: "0 < ?L" by linarith
  then have nz: "length' b \<noteq> 0" by auto
  have di: "discard = 0" and sp: "sint space = ?L - ?f"
  proof -
    show "discard = 0"
    proof (cases "?f \<le> 0")
      case True
      with f have "?f = 0" by simp
      then have "fillCount b = 0" by (simp only: signed_eq_0_iff)
      with hd show ?thesis by (simp add: Head_cases)
    next
      case False
      with hd show ?thesis by (auto simp: Head_cases)
    qed
    show "sint space = ?L - ?f"
    proof (cases "?f \<le> 0")
      case True
      with f have "?f = 0" by simp
      with hd True show ?thesis by (auto simp: Head_cases)
    next
      case False
      have "sint (length' b - fillCount b) = ?L - ?f"
        using f L bnd by (intro sint_sub_in_range) linarith+
      with hd False show ?thesis by (auto simp: Head_cases)
    qed
  qed
  have enough: "\<not> sint space < sint (len - discard)"
    using di fit len by simp
  have fits: "sint (head b) + sint len \<le> 2 * ?L"
    using hr len fit sp f by linarith
  have d0: "0 \<le> sint discard" and dl: "sint discard \<le> sint len"
    using di len by simp_all
  have src: "sint len \<le> int (length src)"
    using len by simp
  let ?b1 = "\<lambda>m. b\<lparr>buffer := m, head := c_rem (head b + len) (length' b),
                     fillCount := fillCount b + len\<rparr>"
  from ProduceBytes_copy [OF hd enough L reg hr(1) fits d0 dl src] obtain m
    where run: "TPCircularBufferProduceBytes b src len = Inr (True, ?b1 m)"
      and hc: "holds_copy (buffer b) (nat (sint (head b))) (\<lambda>i. src ! i) ?N m"
      and n: "?N \<le> length (buffer b)"
    using di len by auto
  have sum: "sint (fillCount b + len) = ?f + int ?N"
    using f fit sp len bnd by (intro sint_add_in_range [THEN trans]) simp_all
  have avail: "sint (snd (TPCircularBufferTail (?b1 m))) = ?f + int ?N"
    using sum f by (auto simp: Tail_cases)
  have load: "load_bytes (buffer (?b1 m))
      (ptr_add (fst (TPCircularBufferTail (?b1 m))) ?f) ?N = Inr src"
  proof (cases "?N = 0")
    case True
    then show ?thesis by (simp add: load_bytes_def)
  next
    case False
    then have "0 < int ?N" by simp
    with f have "\<not> ?f + int ?N \<le> 0" by linarith
    with sum have q: "fst (TPCircularBufferTail (?b1 m)) = Ptr ?t"
      by (simp add: Tail_cases)
    have a: "addressable (buffer b) (?t + ?f) ?N"
      using t f fit sp reg by (simp add: addressable_def)
    have "nat (sint (head b)) = nat (?t + ?f) mod nat ?L"
      using h t f L by (simp add: nat_mod_distrib)
    moreover have "length (buffer b) = nat ?L"
      using reg by simp
    ultimately have same: "nat (?t + ?f) mod length (buffer b) =
        nat (sint (head b)) mod length (buffer b)"
      by simp
    have "load_bytes m (Ptr (?t + ?f)) ?N = Inr (map (\<lambda>i. src ! i) [0..<?N])"
      by (rule holds_copy_load [OF hc n a same])
    with q show ?thesis
      by (simp add: ptr_add_def map_nth)
  qed
  have cons: "TPCircularBufferConsume (?b1 m) len =
      Inr ((?b1 m)\<lparr>tail := c_rem (tail b + len) (length' b), fillCount := fillCount b\<rparr>)"
    using nz L by (simp add: TPCircularBufferConsume_def atomic_fetch_sub_explicit_def Let_def)
  from run avail load cons show ?thesis
    by (intro exI [of _ "?b1 m"] exI [of _ "(?b1 m)\<lparr>tail := c_rem (tail b + len) (length' b), fillCount := fillCount b\<rparr>"]) simp
qed

theorem write_then_read_witness:
  "quiescent example_buffer \<and> cursors_in_region example_buffer \<and>
   int (length (buffer example_buffer)) = sint (length' example_buffer) \<and>
   TPCircularBufferHead example_buffer = (Ptr 2, 1, 0) \<and>
   int (length [7 :: byte]) \<le> sint (1 :: int32_t) \<and>
   sint (1 :: int32_t) = int (length [7 :: byte]) \<and>
   TPCircularBufferProduceBytes example_buffer [7] 1 =
     Inr (True, example_buffer\<lparr>buffer := [12, 13, 7, 11], head := 3, fillCount := 4\<rparr>) \<and>
   TPCircularBufferTail (example_buffer\<lparr>buffer := [12, 13, 7, 11], head := 3, fillCount := 4\<rparr>) =
     (Ptr 3, 4) \<and>
   load_bytes [12, 13, 7, 11] (ptr_add (Ptr 3) 3) 1 = Inr [7]"
proof -
  let ?b1 = "example_buffer\<lparr>buffer := [12, 13, 7, 11], head := 3, fillCount := 4\<rparr>"
  have q: "quiescent example_buffer" and c: "cursors_in_region example_buffer"
    and reg: "int (length (buffer example_buffer)) = sint (length' example_buffer)"
    by (simp_all add: example_buffer_def quiescent_def cursors_in_region_def)
  have hd: "TPCircularBufferHead example_buffer = (Ptr 2, 1, 0)"
    by (simp add: example_buffer_def Head_cases)
  have fit: "int (length [7 :: byte]) \<le> sint (1 :: int32_t)"
    and len: "sint (1 :: int32_t) = int (length [7 :: byte])"
    by simp_all
  have r: "c_rem 3 4 = 3"
    by (simp add: c_rem_def smod_int_alt_def)
  have run: "TPCircularBufferProduceBytes example_buffer [7] 1 = Inr (True, ?b1)"
    by (simp add: example_buffer_def Head_cases TPCircularBufferProduceBytes_def memcpy_def
          ptr_add_def size_t_of_def addressable_def Produce_cases r upt_1)
  have tl: "TPCircularBufferTail ?b1 = (Ptr 3, 4)"
    by (simp add: example_buffer_def Tail_cases)
  from write_then_read [OF q c reg hd fit len] obtain b1
    where "TPCircularBufferProduceBytes example_buffer [7] 1 = Inr (True, b1)"
      and "load_bytes (buffer b1)
             (ptr_add (fst (TPCircularBufferTail b1)) (sint (fillCount example_buffer)))
             (length [7 :: byte]) = Inr [7]"
    by blast
  with run tl have "load_bytes [12, 13, 7, 11] (ptr_add (Ptr 3) 3) 1 = Inr [7]"
    by (auto simp: example_buffer_def)
  with q c reg hd fit len run tl show ?thesis
    by simp
qed

subsection \<open>Atomic mode and the deprecated functions\<close>

lemma perform_atomic:
  "produce_or_consume c \<Longrightarrow>
   perform (b\<lparr>atomic := m\<rparr>) c =
     (case perform b c of Inl e \<Rightarrow> Inl e | Inr (r, b') \<Rightarrow> Inr (r, b'\<lparr>atomic := m\<rparr>))"
  by (cases c)
     (simp_all add: TPCircularBufferConsume_def TPCircularBufferProduce_def
        atomic_fetch_add_explicit_def atomic_fetch_sub_explicit_def Let_def)

lemma run_atomic:
  "\<forall>c\<in>set cs. produce_or_consume c \<Longrightarrow>
   run (b\<lparr>atomic := m\<rparr>) cs =
     (case run b cs of Inl e \<Rightarrow> Inl e | Inr (rs, b') \<Rightarrow> Inr (rs, b'\<lparr>atomic := m\<rparr>))"
proof (induction cs arbitrary: b)
  case Nil
  show ?case by simp
next
  case (Cons c cs)
  then show ?case
    by (simp add: perform_atomic split: sum.splits prod.splits)
qed

lemma perform_deprecated:
  "produce_or_consume c \<Longrightarrow>
   map_sum id snd (perform b (deprecated c)) = map_sum id snd (perform b c)"
  by (cases c)
     (simp_all add: TPCircularBufferConsume_def TPCircularBufferProduce_def
        TPCircularBufferConsumeNoBarrier_def TPCircularBufferProduceNoBarrier_def
        atomic_fetch_add_explicit_def atomic_fetch_sub_explicit_def Let_def)

lemma final_run_Cons:
  "map_sum id snd (run b (c # cs)) =
     (case map_sum id snd (perform b c) of
        Inl e \<Rightarrow> Inl e | Inr b' \<Rightarrow> map_sum id snd (run b' cs))"
  by (simp split: sum.splits prod.splits)

lemma run_deprecated:
  "\<forall>c\<in>set cs. produce_or_consume c \<Longrightarrow>
   map_sum id snd (run b (map deprecated cs)) = map_sum id snd (run b cs)"
proof (induction cs arbitrary: b)
  case Nil
  show ?case by simp
next
  case (Cons c cs)
  then have c: "map_sum id snd (perform b (deprecated c)) = map_sum id snd (perform b c)"
    by (simp add: perform_deprecated)
  have "map_sum id snd (run b (map deprecated (c # cs))) =
        (case map_sum id snd (perform b c) of
           Inl e \<Rightarrow> Inl e | Inr b' \<Rightarrow> map_sum id snd (run b' (map deprecated cs)))"
    unfolding list.map final_run_Cons c ..
  also have "\<dots> = (case map_sum id snd (perform b c) of
           Inl e \<Rightarrow> Inl e | Inr b' \<Rightarrow> map_sum id snd (run b' cs))"
  proof -
    from Cons.prems have "\<forall>c\<in>set cs. produce_or_consume c"
      by simp
    note ih = Cons.IH [OF this]
    show ?thesis
      by (cases "map_sum id snd (perform b c)") (simp_all only: sum.case ih)
  qed
  also have "\<dots> = map_sum id snd (run b (c # cs))"
    by (rule final_run_Cons [symmetric])
  finally show ?case .
qed

text \<open>
  C9. For every buffer and every sequence of \<open>Produce\<close> and \<open>Consume\<close> calls made one
  after the other, the sequence leaves the same \<open>fillCount\<close>, \<open>tail\<close> and \<open>head\<close> (or
  stops with the same fault) with \<open>atomic\<close> set, with \<open>atomic\<close> clear, and when every call
  is replaced by its deprecated \<open>NoBarrier\<close> function.
\<close>

theorem atomic_mode_and_deprecated_agree:
  assumes "\<forall>c\<in>set cs. produce_or_consume c"
  shows "cursors (run (b\<lparr>atomic := True\<rparr>) cs) = cursors (run (b\<lparr>atomic := False\<rparr>) cs) \<and>
         cursors (run b (map deprecated cs)) = cursors (run (b\<lparr>atomic := False\<rparr>) cs)"
proof -
  have "cursors (run (b\<lparr>atomic := m\<rparr>) cs) = cursors (run b cs)" for m
    by (simp add: run_atomic [OF assms] cursors_def split: sum.splits)
  moreover have "cursors (run b (map deprecated cs)) = cursors (run b cs)"
    using run_deprecated [OF assms, of b]
    by (cases "run b (map deprecated cs)"; cases "run b cs") (auto simp: cursors_def)
  ultimately show ?thesis by simp
qed

theorem atomic_mode_and_deprecated_agree_witness:
  "produce_or_consume (Consume 2) \<and> produce_or_consume (Produce 1) \<and>
   cursors (run (example_buffer\<lparr>atomic := True\<rparr>) [Consume 2, Produce 1]) = Inr (2, 1, 3) \<and>
   cursors (run (example_buffer\<lparr>atomic := False\<rparr>) [Consume 2, Produce 1]) = Inr (2, 1, 3) \<and>
   cursors (run example_buffer (map deprecated [Consume 2, Produce 1])) = Inr (2, 1, 3)"
proof -
  have h: "\<forall>c\<in>set [Consume 2, Produce 1]. produce_or_consume c"
    by simp
  have r: "c_rem 5 4 = 1" "c_rem 3 4 = 3"
    by (simp_all add: c_rem_def smod_int_alt_def)
  have e: "cursors (run (example_buffer\<lparr>atomic := False\<rparr>) [Consume 2, Produce 1]) = Inr (2, 1, 3)"
    by (simp add: example_buffer_def cursors_def TPCircularBufferConsume_def
          TPCircularBufferProduce_def Let_def r)
  from atomic_mode_and_deprecated_agree [OF h, of example_buffer] h e show ?thesis
    by simp
qed

subsection \<open>The access functions change nothing\<close>

lemma run_append:
  "run b (xs @ ys) =
     (case run b xs of
        Inl e \<Rightarrow> Inl e
      | Inr (rs, b') \<Rightarrow>
          (case run b' ys of Inl e \<Rightarrow> Inl e | Inr (rs', b'') \<Rightarrow> Inr (rs @ rs', b'')))"
  by (induction xs arbitrary: b) (auto split: sum.splits prod.splits)

lemma perform_access:
  "is_access c \<Longrightarrow> \<exists>r. perform b c = Inr (r, b)"
  by (cases c) (auto split: prod.splits)

lemma run_accesses:
  "\<forall>c\<in>set accs. is_access c \<Longrightarrow>
   \<exists>rs. run b accs = Inr (rs, b) \<and> length rs = length accs \<and>
        (\<forall>i<length accs. perform b (accs ! i) = Inr (rs ! i, b))"
proof (induction accs)
  case Nil
  show ?case by simp
next
  case (Cons c accs)
  then obtain rs where rs: "run b accs = Inr (rs, b)" "length rs = length accs"
      "\<forall>i<length accs. perform b (accs ! i) = Inr (rs ! i, b)"
    by auto
  from Cons.prems obtain r where r: "perform b c = Inr (r, b)"
    using perform_access [of c b] by auto
  have "run b (c # accs) = Inr (r # rs, b)"
    using r rs by simp
  moreover have "\<forall>i<length (c # accs). perform b ((c # accs) ! i) = Inr ((r # rs) ! i, b)"
    using r rs by (auto simp: nth_Cons split: nat.splits)
  ultimately show ?case
    using rs by auto
qed

text \<open>
  C10. \<open>TPCircularBufferTail\<close> and \<open>TPCircularBufferHead\<close> change no field of the buffer and
  no byte of its region. Any number of them in a row leaves the buffer as it was, each
  returning what a single call on that buffer returns, and the calls that follow return
  the same, and leave the same buffer, as they do without them.
\<close>

theorem access_functions_observe:
  assumes "\<forall>c\<in>set accs. is_access c"
  shows "\<exists>rs. run b accs = Inr (rs, b) \<and> length rs = length accs \<and>
           (\<forall>i<length accs. perform b (accs ! i) = Inr (rs ! i, b)) \<and>
           run b (accs @ cs) =
             (case run b cs of Inl e \<Rightarrow> Inl e | Inr (rs', b') \<Rightarrow> Inr (rs @ rs', b'))"
proof -
  from run_accesses [OF assms, of b] obtain rs where rs: "run b accs = Inr (rs, b)"
      "length rs = length accs" "\<forall>i<length accs. perform b (accs ! i) = Inr (rs ! i, b)"
    by auto
  then have "run b (accs @ cs) =
      (case run b cs of Inl e \<Rightarrow> Inl e | Inr (rs', b') \<Rightarrow> Inr (rs @ rs', b'))"
    by (simp add: run_append)
  with rs show ?thesis by auto
qed

theorem access_functions_observe_witness:
  "is_access Tail \<and> is_access Head \<and>
   run example_buffer [Tail, Tail, Head] =
     Inr ([TailResult (Ptr 3) 3, TailResult (Ptr 3) 3, HeadResult (Ptr 2) 1 0], example_buffer) \<and>
   run example_buffer ([Tail, Tail, Head] @ [Consume 2]) =
     Inr ([TailResult (Ptr 3) 3, TailResult (Ptr 3) 3, HeadResult (Ptr 2) 1 0, Void],
          example_buffer\<lparr>tail := 1, fillCount := 1\<rparr>)"
proof -
  have h: "\<forall>c\<in>set [Tail, Tail, Head]. is_access c"
    by simp
  have r: "c_rem 5 4 = 1"
    by (simp add: c_rem_def smod_int_alt_def)
  have t: "TPCircularBufferTail example_buffer = (Ptr 3, 3)"
    by (simp add: example_buffer_def TPCircularBufferTail_def atomic_load_explicit_def)
  have d: "TPCircularBufferHead example_buffer = (Ptr 2, 1, 0)"
    by (simp add: example_buffer_def TPCircularBufferHead_def atomic_load_explicit_def)
  have c: "run example_buffer [Consume 2] = Inr ([Void], example_buffer\<lparr>tail := 1, fillCount := 1\<rparr>)"
    by (simp add: example_buffer_def TPCircularBufferConsume_def atomic_fetch_sub_explicit_def r)
  from access_functions_observe [OF h, of example_buffer "[Consume 2]"] h t d c show ?thesis
    by auto
qed

subsection \<open>The quiescent invariant\<close>

text \<open>
  C1, as stated, fails: an amount that is at most the reported bytes may be negative. On
  a cleared four-byte buffer, \<open>Produce 4\<close> fills the buffer and \<open>Consume (-1)\<close>, which is
  within the four bytes that \<open>TPCircularBufferTail\<close> reports, leaves \<open>fillCount = 5\<close> and
  \<open>tail = -1\<close>: the fill count exceeds the length.
\<close>

theorem quiescent_invariant_counterexample:
  "0 < sint (length' example_buffer) \<and>
   all_within_reported (TPCircularBufferClear example_buffer) [Produce 4, Consume (- 1)] \<and>
   run (TPCircularBufferClear example_buffer) [Produce 4, Consume (- 1)] =
     Inr ([ProduceResult 0, Void], example_buffer\<lparr>tail := - 1, head := 0, fillCount := 5\<rparr>) \<and>
   \<not> quiescent (example_buffer\<lparr>tail := - 1, head := 0, fillCount := 5\<rparr>)"
  by (simp add: example_buffer_def TPCircularBufferClear_def TPCircularBufferHead_def
        TPCircularBufferTail_def TPCircularBufferProduce_def TPCircularBufferConsume_def
        atomic_load_explicit_def atomic_fetch_add_explicit_def atomic_fetch_sub_explicit_def
        quiescent_def c_rem_examples)

lemma Consume_sound:
  assumes inv: "sound b"
      and nonneg: "0 \<le> sint amount"
      and avail: "sint amount \<le> sint (snd (TPCircularBufferTail b))"
      and range: "sint (tail b) + sint amount < 2 ^ 31"
  shows "\<exists>b'. TPCircularBufferConsume b amount = Inr b' \<and> sound b'"
proof -
  let ?L = "sint (length' b)" and ?t = "sint (tail b)" and ?f = "sint (fillCount b)"
  let ?a = "sint amount"
  from inv have L: "0 < ?L" and f: "0 \<le> ?f" "?f \<le> ?L"
    and h: "sint (head b) = (?t + ?f) mod ?L" and t: "0 \<le> ?t" "?t < ?L"
    by (simp_all add: sound_def quiescent_def cursors_in_region_def)
  from L have nz: "length' b \<noteq> 0" by auto
  from avail nonneg f have a: "?a \<le> ?f"
    by (simp add: Tail_cases split: if_splits)
  have bnd: "?L < 2 ^ 31" by (rule sint_bounds)
  have sum: "sint (tail b + amount) = ?t + ?a"
    using t nonneg range by (intro sint_add_in_range) linarith+
  have tl: "sint (c_rem (tail b + amount) (length' b)) = (?t + ?a) mod ?L"
    using sint_c_rem_mod [of "tail b + amount" "length' b"] sum t nonneg L by simp
  have fc: "sint (fillCount b - amount) = ?f - ?a"
    using f a nonneg bnd by (intro sint_sub_in_range) linarith+
  let ?b' = "b\<lparr>tail := c_rem (tail b + amount) (length' b), fillCount := fillCount b - amount\<rparr>"
  have run: "TPCircularBufferConsume b amount = Inr ?b'"
    using nz L by (simp add: TPCircularBufferConsume_def atomic_fetch_sub_explicit_def Let_def)
  have "((?t + ?a) mod ?L + (?f - ?a)) mod ?L = (?t + ?a + (?f - ?a)) mod ?L"
    by (rule mod_add_left_eq)
  then have hd: "sint (head b) = ((?t + ?a) mod ?L + (?f - ?a)) mod ?L"
    using h by simp
  have "sound ?b'"
    using L f a nonneg hd tl fc inv
    by (simp add: sound_def quiescent_def cursors_in_region_def)
  with run show ?thesis by blast
qed

lemma Produce_sound:
  assumes inv: "sound b"
      and nonneg: "0 \<le> sint amount"
      and avail: "sint amount \<le> sint (fst (snd (TPCircularBufferHead b)))"
      and range: "sint (head b) + sint amount < 2 ^ 31"
  shows "\<exists>r b'. TPCircularBufferProduce b amount = Inr (r, b') \<and> sound b'"
proof -
  let ?L = "sint (length' b)" and ?t = "sint (tail b)" and ?f = "sint (fillCount b)"
  let ?a = "sint amount" and ?h = "sint (head b)"
  from inv have L: "0 < ?L" and f: "0 \<le> ?f" "?f \<le> ?L"
    and h: "?h = (?t + ?f) mod ?L" and t: "0 \<le> ?t" "?t < ?L" and hr: "0 \<le> ?h" "?h < ?L"
    by (simp_all add: sound_def quiescent_def cursors_in_region_def)
  from L have nz: "length' b \<noteq> 0" by auto
  have low: "- (2 ^ 31) \<le> ?f + ?a"
    using f nonneg by simp
  from within_space_sum [OF L low avail]
  have fc: "sint (fillCount b + amount) = ?f + ?a" and le: "?f + ?a \<le> ?L"
    by simp_all
  have sum: "sint (head b + amount) = ?h + ?a"
    using hr nonneg range by (intro sint_add_in_range) linarith+
  have hd: "sint (c_rem (head b + amount) (length' b)) = (?h + ?a) mod ?L"
    using sint_c_rem_mod [of "head b + amount" "length' b"] sum hr nonneg L by simp
  let ?b' = "b\<lparr>head := c_rem (head b + amount) (length' b), fillCount := fillCount b + amount\<rparr>"
  have run: "TPCircularBufferProduce b amount = Inr (fillCount b, ?b')"
    using nz L fc le
    by (simp add: TPCircularBufferProduce_def atomic_fetch_add_explicit_def Let_def)
  have "((?t + ?f) mod ?L + ?a) mod ?L = (?t + ?f + ?a) mod ?L"
    by (rule mod_add_left_eq)
  then have eq: "(?h + ?a) mod ?L = (?t + (?f + ?a)) mod ?L"
    using h by (simp add: add.assoc)
  have "sound ?b'"
    using L f nonneg le eq hd fc t
    by (simp add: sound_def quiescent_def cursors_in_region_def)
  with run show ?thesis by blast
qed

lemma run_sound:
  "sound b \<Longrightarrow> all_within_reported b cs \<Longrightarrow> byte_counts b cs \<Longrightarrow>
   \<exists>rs b'. run b cs = Inr (rs, b') \<and> sound b'"
proof (induction cs arbitrary: b)
  case Nil
  then show ?case by simp
next
  case (Cons c cs)
  have "\<exists>r b1. perform b c = Inr (r, b1) \<and> sound b1"
  proof (cases c)
    case (Consume amount)
    with Cons.prems Consume_sound [of b amount] show ?thesis by auto
  next
    case (Produce amount)
    with Cons.prems Produce_sound [of b amount] show ?thesis by auto
  qed (use Cons.prems in simp_all)
  then obtain r b1 where p: "perform b c = Inr (r, b1)" and s: "sound b1"
    by blast
  from Cons.prems p have "all_within_reported b1 cs" "byte_counts b1 cs"
    by simp_all
  from Cons.IH [OF s this] obtain rs b' where "run b1 cs = Inr (rs, b')" "sound b'"
    by blast
  with p show ?case by simp
qed

text \<open>
  C1, amended. From a cleared (or freshly initialised) buffer of positive length, every
  sequence of \<open>Consume\<close> and \<open>Produce\<close> calls whose amounts are non-negative, are at most
  what \<open>TPCircularBufferTail\<close> (for \<open>Consume\<close>) or \<open>TPCircularBufferHead\<close> (for \<open>Produce\<close>)
  reports on the buffer the call is made on, and keep \<open>tail + amount\<close> and
  \<open>head + amount\<close> within \<open>int32_t\<close>, runs without a fault and ends in a buffer with
  \<open>0 \<le> fillCount \<le> length\<close>, \<open>head = (tail + fillCount) mod length\<close> and both cursors in
  \<open>[0, length)\<close>.
\<close>

theorem quiescent_invariant:
  assumes "0 < sint (length' b)"
      and "all_within_reported (TPCircularBufferClear b) cs"
      and "byte_counts (TPCircularBufferClear b) cs"
  shows "\<exists>rs b'. run (TPCircularBufferClear b) cs = Inr (rs, b') \<and>
                 quiescent b' \<and> cursors_in_region b'"
proof -
  from assms(1) have "sound (TPCircularBufferClear b)"
    by (simp add: sound_def quiescent_def cursors_in_region_def TPCircularBufferClear_def)
  from run_sound [OF this assms(2,3)] show ?thesis
    by (auto simp: sound_def)
qed

theorem quiescent_invariant_witness:
  "0 < sint (length' example_buffer) \<and>
   all_within_reported (TPCircularBufferClear example_buffer) [Produce 3, Consume 2, Produce 3] \<and>
   byte_counts (TPCircularBufferClear example_buffer) [Produce 3, Consume 2, Produce 3] \<and>
   run (TPCircularBufferClear example_buffer) [Produce 3, Consume 2, Produce 3] =
     Inr ([ProduceResult 0, Void, ProduceResult 1],
          example_buffer\<lparr>tail := 2, head := 2, fillCount := 4\<rparr>) \<and>
   quiescent (example_buffer\<lparr>tail := 2, head := 2, fillCount := 4\<rparr>) \<and>
   cursors_in_region (example_buffer\<lparr>tail := 2, head := 2, fillCount := 4\<rparr>)"
proof -
  let ?cs = "[Produce 3, Consume 2, Produce 3]"
  have l: "0 < sint (length' example_buffer)"
    by (simp add: example_buffer_def)
  have r: "run (TPCircularBufferClear example_buffer) ?cs =
      Inr ([ProduceResult 0, Void, ProduceResult 1],
           example_buffer\<lparr>tail := 2, head := 2, fillCount := 4\<rparr>)"
    by (simp add: example_buffer_def TPCircularBufferClear_def TPCircularBufferProduce_def
          TPCircularBufferConsume_def atomic_fetch_add_explicit_def
          atomic_fetch_sub_explicit_def c_rem_examples)
  have w: "all_within_reported (TPCircularBufferClear example_buffer) ?cs"
    by (simp add: example_buffer_def TPCircularBufferClear_def TPCircularBufferHead_def
          TPCircularBufferTail_def TPCircularBufferProduce_def TPCircularBufferConsume_def
          atomic_load_explicit_def atomic_fetch_add_explicit_def atomic_fetch_sub_explicit_def
          c_rem_examples)
  have c: "byte_counts (TPCircularBufferClear example_buffer) ?cs"
    by (simp add: example_buffer_def TPCircularBufferClear_def TPCircularBufferProduce_def
          TPCircularBufferConsume_def atomic_fetch_add_explicit_def
          atomic_fetch_sub_explicit_def c_rem_examples)
  from quiescent_invariant [OF l w c] r l w c show ?thesis
    by simp
qed

text \<open>
  On a buffer of at most \<open>2 ^ 30\<close> bytes the additions cannot leave \<open>int32_t\<close>: there a
  non-negative amount within the reported bound is all that the theorem above asks for.
\<close>

lemma byte_count_small_buffer:
  assumes reg: "cursors_in_region b" and small: "sint (length' b) \<le> 2 ^ 30"
      and fc: "0 \<le> sint (fillCount b)" "sint (fillCount b) \<le> sint (length' b)"
      and rep: "within_reported b c"
      and amt: "case c of Consume amount \<Rightarrow> 0 \<le> sint amount
                        | Produce amount \<Rightarrow> 0 \<le> sint amount | _ \<Rightarrow> True"
  shows "byte_count b c"
proof -
  from reg have t: "sint (tail b) < sint (length' b)" and h: "sint (head b) < sint (length' b)"
    by (simp_all add: cursors_in_region_def)
  have p: "(2 :: int) ^ 30 + 2 ^ 30 = 2 ^ 31"
    by simp
  show ?thesis
  proof (cases c)
    case (Consume amount)
    with rep fc have "sint amount \<le> sint (length' b)"
      by (simp add: Tail_cases split: if_splits)
    with t small p have "sint (tail b) + sint amount < 2 ^ 31"
      by linarith
    with Consume amt show ?thesis by simp
  next
    case (Produce amount)
    have "sint (length' b - fillCount b) = sint (length' b) - sint (fillCount b)"
      using fc sint_bounds [of "length' b"] by (intro sint_sub_in_range) simp_all
    with Produce rep fc have "sint amount \<le> sint (length' b)"
      by (simp add: TPCircularBufferHead_def atomic_load_explicit_def Let_def split: if_splits)
    with h small p have "sint (head b) + sint amount < 2 ^ 31"
      by linarith
    with Produce amt show ?thesis by simp
  qed (use rep in simp_all)
qed

end
